theory Spec2Isabelle
  imports Main "HOL-Library.Word"
begin

unbundle bit_operations_syntax

section \<open>Data model\<close>

text \<open>
  The package reads an append-only log of checksummed records.  Bytes are 8-bit words,
  offsets are Go \<^verbatim>\<open>uint32\<close> values, byte positions handed to the storage layer are
  Go \<^verbatim>\<open>int64\<close> values (never out of range here, so plain integers), and Go's
  \<^verbatim>\<open>int\<close> is taken to be 64 bits wide.
\<close>

type_synonym byte = "8 word"

text \<open>
  The error values that can travel through the \<^verbatim>\<open>error\<close> channel: \<^verbatim>\<open>io.EOF\<close>, the
  package's \<^verbatim>\<open>EBADSLT\<close> and \<^verbatim>\<open>EINVAL\<close>, and any other error (of the storage layer or
  of a callback), told apart by a number.
\<close>

datatype error = EOF | EBADSLT | EINVAL | IOError nat

text \<open>
  \<^verbatim>\<open>PAD\<close>, \<^verbatim>\<open>MAGIC\<close> and \<^verbatim>\<open>Hash\<close> are package-level names that the reader uses but
  does not declare.  They are parameters of the model.  \<^verbatim>\<open>PAD\<close> is used in \<^verbatim>\<open>uint32\<close>
  arithmetic with \<^verbatim>\<open>offset\<close> and \<^verbatim>\<open>metadataLen\<close>, so it is a 32-bit value; the result of
  \<^verbatim>\<open>Hash\<close> is converted with \<^verbatim>\<open>uint32(...)\<close>, modelled as truncation of a 64-bit value.
  The fourth parameter belongs to the platform: \<open>maxAlloc\<close> is the largest number of bytes
  that \<^verbatim>\<open>make([]byte, n)\<close> allocates.  For a larger \<open>n\<close>, as for a negative one, Go's
  \<^verbatim>\<open>makeslice\<close> panics.  (It is \<open>2 ^ 48\<close> on linux/amd64, and at least \<open>2 ^ 32\<close> wherever
  \<^verbatim>\<open>int\<close> has 64 bits.)
\<close>

record env =
  PAD :: "32 word"
  MAGIC :: "byte list"
  Hash :: "byte list \<Rightarrow> 64 word"
  maxAlloc :: int

text \<open>
  An \<^verbatim>\<open>io.ReaderAt\<close>: given the length of the buffer and a byte position, the bytes it
  read (their number is Go's \<^verbatim>\<open>n\<close>) and the error it reports.
\<close>

type_synonym ReaderAt = "nat \<Rightarrow> int \<Rightarrow> byte list \<times> error option"

text \<open>
  The storage layer of a handle is an \<^verbatim>\<open>*os.File\<close>.  Its \<^verbatim>\<open>ReadAt\<close> on a file with
  the given contents refuses a negative position, reads as many bytes as the file has
  from the position on, up to the length of the buffer, and reports \<^verbatim>\<open>io.EOF\<close> exactly
  when it read fewer bytes than the buffer holds (a read into an empty buffer reports
  no error).
\<close>

definition file_ReadAt :: "byte list \<Rightarrow> ReaderAt" where
  "file_ReadAt f len off =
     (if off < 0 then ([], Some (IOError 0))
      else let bs = take len (drop (nat off) f)
           in (bs, if length bs < len then Some EOF else None))"

text \<open>A Go slice expression \<^verbatim>\<open>xs[i:j]\<close>, used within bounds only.\<close>

definition slice :: "'a list \<Rightarrow> nat \<Rightarrow> nat \<Rightarrow> 'a list" where
  "slice xs i j = take (j - i) (drop i xs)"

text \<open>
  \<^verbatim>\<open>binary.LittleEndian.Uint32\<close>: the first four bytes, least significant first.  The
  reader only applies it to slices of the 16-byte header that hold at least four bytes;
  on a shorter slice Go panics, which the second equation does not model.
\<close>

fun Uint32 :: "byte list \<Rightarrow> 32 word" where
  "Uint32 (b0 # b1 # b2 # b3 # _) =
     ucast b0 OR push_bit 8 (ucast b1) OR push_bit 16 (ucast b2) OR push_bit 24 (ucast b3)"
| "Uint32 _ = 0"

text \<open>A call either panics or returns.\<close>

datatype 'a exec = Panic | Returns 'a

text \<open>
  What \<^verbatim>\<open>ReadFromReader\<close> returns: the data (\<open>None\<close> is Go's \<^verbatim>\<open>nil\<close> slice), the next
  offset and the error (\<open>None\<close> is \<^verbatim>\<open>nil\<close>).
\<close>

type_synonym read_result = "byte list option \<times> 32 word \<times> error option"

section \<open>Reading one record\<close>

text \<open>
  \<^verbatim>\<open>ReadFromReader\<close> (the revision with a \<^verbatim>\<open>blockSize\<close> argument; the older one reads
  the same way, with the global \<^verbatim>\<open>BLOCK_SIZE\<close> as its block size).  Beside the result, the model returns the
  positional reads issued on the source, in order, each as buffer length and position.
  Each of the two \<^verbatim>\<open>make\<close> calls panics on a length that is negative or beyond
  \<open>maxAlloc\<close>, slicing \<^verbatim>\<open>block[:n]\<close> panics when the source claims more bytes than the
  buffer holds, and dividing by a zero \<^verbatim>\<open>PAD\<close> panics.
\<close>

definition ReadFromReader ::
    "env \<Rightarrow> ReaderAt \<Rightarrow> 32 word \<Rightarrow> int \<Rightarrow> read_result exec \<times> (nat \<times> int) list" where
  "ReadFromReader g reader offset bsize =
     (if bsize < 0 \<or> maxAlloc g < bsize then (Panic, [])
      else
        let pos = uint (offset * PAD g) in
        case reader (nat bsize) pos of (block, err) \<Rightarrow>
          let n = length block; io1 = [(nat bsize, pos)] in
          if n < 16 then (Returns (None, 0, err), io1)
          else if nat bsize < n then (Panic, io1)
          else
            let header = take 16 block in
            if slice header 8 12 \<noteq> MAGIC g then (Returns (None, 0, Some EBADSLT), io1)
            else
              let computedChecksumHeader = (ucast (Hash g (take 12 header)) :: 32 word);
                  checksumHeader = Uint32 (slice header 12 16) in
              if checksumHeader \<noteq> computedChecksumHeader
              then (Returns (None, 0, Some EBADSLT), io1)
              else
                let metadataLen = Uint32 header in
                if PAD g = 0 then (Panic, io1)
                else if \<not> uint metadataLen < int (length block) - 16 \<and>
                        maxAlloc g < uint metadataLen
                then (Panic, io1)
                else
                  let nextOffset = offset + (16 + metadataLen + PAD g - 1) div PAD g;
                      (readInto, io) =
                        (if uint metadataLen < int (length block) - 16
                         then (Inr (slice block 16 (16 + unat metadataLen)), io1)
                         else
                           case reader (unat metadataLen) (pos + 16) of (bs2, err2) \<Rightarrow>
                             ((case err2 of
                                 Some e \<Rightarrow> Inl e
                               | None \<Rightarrow>
                                   Inr (take (unat metadataLen)
                                         (bs2 @ replicate (unat metadataLen - length bs2) 0))),
                              io1 @ [(unat metadataLen, pos + 16)]))
                  in
                  (case readInto of
                     Inl e \<Rightarrow> (Returns (None, 0, Some e), io)
                   | Inr readInto \<Rightarrow>
                       let checksumHeaderData = Uint32 (drop 4 header);
                           computedChecksumData = (ucast (Hash g readInto) :: 32 word) in
                       if checksumHeaderData \<noteq> computedChecksumData
                       then (Returns (None, 0, Some EBADSLT), io)
                       else (Returns (Some readInto, nextOffset, None), io)))"

section \<open>Scanning\<close>

text \<open>
  The callback of a scan may have effects of its own: it is a function on a caller's
  state \<open>'s\<close>.  The scan records what it does: every call of \<^verbatim>\<open>ReadFromReader\<close> with its
  offset and outcome, and every call of the callback with its arguments.
\<close>

type_synonym 's callback =
  "byte list option \<Rightarrow> 32 word \<Rightarrow> 32 word \<Rightarrow> 's \<Rightarrow> error option \<times> 's"

datatype event =
    Probe "32 word" "read_result exec"
  | Invoke "byte list option" "32 word" "32 word"

text \<open>
  One turn of the \<^verbatim>\<open>for\<close> loop of \<^verbatim>\<open>ScanFromReader\<close> at the cursor \<open>offset\<close>: either
  the scan ends with a result (\<open>Inl\<close>), or the loop goes on at a new cursor (\<open>Inr\<close>).
\<close>

definition scan_turn ::
    "env \<Rightarrow> ReaderAt \<Rightarrow> int \<Rightarrow> 's callback \<Rightarrow> 32 word \<Rightarrow> 's \<Rightarrow>
     (error option exec + 32 word) \<times> 's \<times> event list" where
  "scan_turn g reader bsize cb offset st =
     (case fst (ReadFromReader g reader offset bsize) of
        Panic \<Rightarrow> (Inl Panic, st, [Probe offset Panic])
      | Returns (data, next, err) \<Rightarrow>
          let probe = Probe offset (Returns (data, next, err)) in
          if err = Some EOF then (Inl (Returns None), st, [probe])
          else if err = Some EBADSLT then (Inr (offset + 1), st, [probe])
          else if err \<noteq> None then (Inl (Returns err), st, [probe])
          else
            case cb data offset next st of (cerr, st') \<Rightarrow>
              if cerr \<noteq> None
              then (Inl (Returns cerr), st', [probe, Invoke data offset next])
              else (Inr next, st', [probe, Invoke data offset next]))"

text \<open>
  The loop itself.  It has no bound, so it is a partial function: \<open>None\<close> is a scan
  that never returns.
\<close>

partial_function (option) scan_loop ::
    "env \<Rightarrow> ReaderAt \<Rightarrow> int \<Rightarrow> 's callback \<Rightarrow> 32 word \<Rightarrow> 's \<Rightarrow> event list \<Rightarrow>
     (error option exec \<times> 's \<times> event list) option" where
  "scan_loop g reader bsize cb offset st tr =
     (case scan_turn g reader bsize cb offset st of
        (Inl r, st', evs) \<Rightarrow> Some (r, st', tr @ evs)
      | (Inr offset', st', evs) \<Rightarrow> scan_loop g reader bsize cb offset' st' (tr @ evs))"

definition ScanFromReader ::
    "env \<Rightarrow> ReaderAt \<Rightarrow> 32 word \<Rightarrow> int \<Rightarrow> 's callback \<Rightarrow> 's \<Rightarrow>
     (error option exec \<times> 's \<times> event list) option" where
  "ScanFromReader g reader offset bsize cb st = scan_loop g reader bsize cb offset st []"

text \<open>The loop's unfolding equation is what a concrete scan is run with.\<close>

declare scan_loop.simps [code]

text \<open>The calls of the callback in a trace, in order: data, offset and next offset.\<close>

fun invocations :: "event list \<Rightarrow> (byte list option \<times> 32 word \<times> 32 word) list" where
  "invocations [] = []"
| "invocations (Invoke d k n # evs) = (d, k, n) # invocations evs"
| "invocations (Probe k r # evs) = invocations evs"

text \<open>
  The shape of the trace of a scan that returns, started at cursor \<open>c\<close>: a probe at the
  cursor; after \<^verbatim>\<open>EBADSLT\<close> the same from \<open>c + 1\<close>; after a successful read the call of
  the callback with what was read, and then either nothing more (the callback failed) or
  the same from the next offset; after anything else nothing more.
\<close>

fun run_from :: "32 word \<Rightarrow> event list \<Rightarrow> bool" where
  "run_from c [] = False"
| "run_from c (Invoke d k n # evs) = False"
| "run_from c (Probe k Panic # evs) = (k = c \<and> evs = [])"
| "run_from c (Probe k (Returns (d, n, Some e)) # evs) =
     (k = c \<and> (if e = EBADSLT then run_from (c + 1) evs else evs = []))"
| "run_from c (Probe k (Returns (d, n, None)) # []) = False"
| "run_from c (Probe k (Returns (d, n, None)) # Probe k' r # evs) = False"
| "run_from c (Probe k (Returns (d, n, None)) # Invoke d' k' n' # evs) =
     (k = c \<and> d' = d \<and> k' = c \<and> n' = n \<and> (evs = [] \<or> run_from n evs))"

section \<open>The handle\<close>

text \<open>
  The file system a handle is opened on: the contents of each file that can be opened,
  and the names \<^verbatim>\<open>os.OpenFile\<close> was called with, in order.  A \<^verbatim>\<open>Reader\<close> holds the
  open file (field \<^verbatim>\<open>file\<close>, here \<open>file_r\<close>) and the block size; \<^verbatim>\<open>NewReader\<close> is the
  revision that takes the block size, and \<^verbatim>\<open>Read\<close> and \<^verbatim>\<open>Scan\<close> hand the file and the
  block size on to \<^verbatim>\<open>ReadFromReader\<close> and \<^verbatim>\<open>ScanFromReader\<close>.
\<close>

record filesystem =
  contents :: "string \<Rightarrow> byte list option"
  open_calls :: "string list"

definition OpenFile :: "filesystem \<Rightarrow> string \<Rightarrow> (error + byte list) \<times> filesystem" where
  "OpenFile fs name =
     ((case contents fs name of None \<Rightarrow> Inl (IOError 2) | Some f \<Rightarrow> Inr f),
      fs\<lparr>open_calls := open_calls fs @ [name]\<rparr>)"

record Reader =
  file_r :: "byte list"
  blockSize :: int

definition NewReader ::
    "filesystem \<Rightarrow> string \<Rightarrow> int \<Rightarrow> (error + Reader) \<times> filesystem" where
  "NewReader fs filename bsize =
     (let bsize = (if bsize = 0 then 16 else bsize) in
      if bsize < 16 then (Inl EINVAL, fs)
      else
        case OpenFile fs filename of
          (Inl err, fs') \<Rightarrow> (Inl err, fs')
        | (Inr fd, fs') \<Rightarrow> (Inr \<lparr>file_r = fd, blockSize = bsize\<rparr>, fs'))"

definition Read :: "env \<Rightarrow> Reader \<Rightarrow> 32 word \<Rightarrow> read_result exec \<times> (nat \<times> int) list" where
  "Read g ar offset = ReadFromReader g (file_ReadAt (file_r ar)) offset (blockSize ar)"

definition Scan ::
    "env \<Rightarrow> Reader \<Rightarrow> 32 word \<Rightarrow> 's callback \<Rightarrow> 's \<Rightarrow>
     (error option exec \<times> 's \<times> event list) option" where
  "Scan g ar offset cb st = ScanFromReader g (file_ReadAt (file_r ar)) offset (blockSize ar) cb st"

section \<open>Records in a file\<close>

text \<open>
  The layout of a record at byte position \<open>pos\<close> of a file, as readers and writers agree
  on it: a 16-byte header (payload length, checksum of the payload, the magic bytes,
  checksum of the first 12 header bytes; the numbers little-endian) followed by the
  payload.  These definitions speak about the bytes of the file only, not about how they
  are read.
\<close>

definition header_at :: "byte list \<Rightarrow> nat \<Rightarrow> byte list" where
  "header_at f pos = take 16 (drop pos f)"

definition metadata_length :: "byte list \<Rightarrow> nat \<Rightarrow> 32 word" where
  "metadata_length f pos = Uint32 (take 4 (header_at f pos))"

definition payload_at :: "byte list \<Rightarrow> nat \<Rightarrow> byte list" where
  "payload_at f pos = take (unat (metadata_length f pos)) (drop (pos + 16) f)"

definition magic_ok :: "env \<Rightarrow> byte list \<Rightarrow> nat \<Rightarrow> bool" where
  "magic_ok g f pos = (slice (header_at f pos) 8 12 = MAGIC g)"

definition header_checksum_ok :: "env \<Rightarrow> byte list \<Rightarrow> nat \<Rightarrow> bool" where
  "header_checksum_ok g f pos =
     (Uint32 (slice (header_at f pos) 12 16) = ucast (Hash g (take 12 (header_at f pos))))"

definition data_checksum_ok :: "env \<Rightarrow> byte list \<Rightarrow> nat \<Rightarrow> bool" where
  "data_checksum_ok g f pos =
     (Uint32 (slice (header_at f pos) 4 8) = ucast (Hash g (payload_at f pos)))"

text \<open>A whole valid record lies at \<open>pos\<close>: header and payload are in the file, and the three checks hold.\<close>

definition record_at :: "env \<Rightarrow> byte list \<Rightarrow> nat \<Rightarrow> bool" where
  "record_at g f pos =
     (pos + 16 + unat (metadata_length f pos) \<le> length f \<and>
      magic_ok g f pos \<and> header_checksum_ok g f pos \<and> data_checksum_ok g f pos)"

text \<open>The next offset as \<^verbatim>\<open>ReadFromReader\<close> computes it, in \<^verbatim>\<open>uint32\<close> arithmetic.\<close>

definition next_offset :: "env \<Rightarrow> byte list \<Rightarrow> 32 word \<Rightarrow> 32 word" where
  "next_offset g f offset =
     offset + (16 + metadata_length f (unat (offset * PAD g)) + PAD g - 1) div PAD g"

text \<open>The two header checks of \<^verbatim>\<open>ReadFromReader\<close> on a block it has read.\<close>

definition header_valid :: "env \<Rightarrow> byte list \<Rightarrow> bool" where
  "header_valid g block =
     (slice (take 16 block) 8 12 = MAGIC g \<and>
      Uint32 (slice (take 16 block) 12 16) = ucast (Hash g (take 12 (take 16 block))))"

text \<open>The number of padding units a record with a payload of \<open>len\<close> bytes takes.\<close>

definition units :: "env \<Rightarrow> nat \<Rightarrow> nat" where
  "units g len = (16 + len + unat (PAD g) - 1) div unat (PAD g)"

text \<open>
  The bytes at \<open>pos\<close> are classified as corrupt: a whole header is there, and it fails
  the magic or the header checksum check, or it passes both, the payload it announces is
  there too, and the data checksum check fails.  (A header that passes both checks and
  announces more payload than the file holds is not of this kind.)
\<close>

definition corrupt_at :: "env \<Rightarrow> byte list \<Rightarrow> nat \<Rightarrow> bool" where
  "corrupt_at g f pos =
     (pos + 16 \<le> length f \<and>
      (\<not> (magic_ok g f pos \<and> header_checksum_ok g f pos) \<or>
       (pos + 16 + unat (metadata_length f pos) \<le> length f \<and> \<not> data_checksum_ok g f pos)))"

text \<open>Every offset from \<open>a\<close> up to, not including, \<open>b\<close> is corrupt.\<close>

definition corrupt_run :: "env \<Rightarrow> byte list \<Rightarrow> nat \<Rightarrow> nat \<Rightarrow> bool" where
  "corrupt_run g f a b = list_all (\<lambda>j. corrupt_at g f (j * unat (PAD g))) [a..<b]"

text \<open>The first offset at which fewer than 16 bytes are left in the file.\<close>

definition end_offset :: "env \<Rightarrow> byte list \<Rightarrow> nat" where
  "end_offset g f = (if length f < 16 then 0 else (length f - 16) div unat (PAD g) + 1)"

text \<open>
  The data ends at \<open>pos\<close>: fewer than 16 bytes are left there, or a header is there that
  passes the magic and the header checksum check and announces more payload than the file
  holds (a record whose write was cut short).
\<close>

definition eof_at :: "env \<Rightarrow> byte list \<Rightarrow> nat \<Rightarrow> bool" where
  "eof_at g f pos =
     (length f < pos + 16 \<or>
      (magic_ok g f pos \<and> header_checksum_ok g f pos \<and>
       length f < pos + 16 + unat (metadata_length f pos)))"

text \<open>
  A log, seen from offset \<open>c\<close> on: the valid records \<open>rs\<close>, each given by its offset
  and its payload, in file order; before each record a (possibly empty) run of corrupt
  offsets; each record followed, from the offset after its padding, by the rest of the log;
  after the last record a (possibly empty) run of corrupt offsets up to an offset where the
  data ends.  (The data ends at every offset from \<open>end_offset\<close> on, so no later offset
  need be looked at.)  Every file has exactly this form from every offset on: at each
  position either the data ends, or the bytes are corrupt, or a valid record lies there.
\<close>

fun log_layout :: "env \<Rightarrow> byte list \<Rightarrow> nat \<Rightarrow> (nat \<times> byte list) list \<Rightarrow> bool" where
  "log_layout g f c [] =
     list_ex (\<lambda>e. corrupt_run g f c e \<and> eof_at g f (e * unat (PAD g)))
       [c..<Suc (max c (end_offset g f))]"
| "log_layout g f c ((k, p) # rs) =
     (c \<le> k \<and> corrupt_run g f c k \<and> record_at g f (k * unat (PAD g)) \<and>
      payload_at f (k * unat (PAD g)) = p \<and> log_layout g f (k + units g (length p)) rs)"

section \<open>Sample parameters and files\<close>

text \<open>
  Concrete values for the parameters, used to run the model: a padding of 64 bytes, four
  magic bytes, the sum of the bytes as a checksum that can be checked by hand, and an
  allocation limit of \<open>2 ^ 48\<close> bytes.
\<close>

definition sample_Hash :: "byte list \<Rightarrow> 64 word" where
  "sample_Hash bs = foldl (\<lambda>h b. h + ucast b) 0 bs"

definition sample_env :: env where
  "sample_env =
     \<lparr>PAD = 64, MAGIC = [0x0b, 0x0e, 0x0e, 0x0f], Hash = sample_Hash,
      maxAlloc = 281474976710656\<rparr>"

text \<open>
  The record with payload \<^verbatim>\<open>hello\<close>: length 5, data checksum \<open>532 = 20 + 2 * 256\<close>, the
  magic bytes, header checksum \<open>5 + 20 + 2 + 54 = 81\<close>, then the payload.  The file
  holds it at offset 0, padded to 64 bytes.
\<close>

definition hello :: "byte list" where
  "hello = [104, 101, 108, 108, 111]"

definition hello_record :: "byte list" where
  "hello_record = [5, 0, 0, 0,  20, 2, 0, 0,  0x0b, 0x0e, 0x0e, 0x0f,  81, 0, 0, 0] @ hello"

definition hello_file :: "byte list" where
  "hello_file = hello_record @ replicate 43 0"

text \<open>
  A header that passes both header checks and announces 1000 bytes of payload
  (\<open>232 + 3 * 256\<close>; header checksum \<open>232 + 3 + 54 = 289 = 33 + 256\<close>).  In the file
  it is followed by 48 bytes only, and then by the \<^verbatim>\<open>hello\<close> record at offset 1: a
  write that was cut short, with a later record appended after it.
\<close>

definition torn_header :: "byte list" where
  "torn_header = [232, 3, 0, 0,  0, 0, 0, 0,  0x0b, 0x0e, 0x0e, 0x0f,  33, 1, 0, 0]"

definition torn_file :: "byte list" where
  "torn_file = torn_header @ replicate 48 0 @ hello_file"

text \<open>A file of 4 GiB of zero bytes followed by the \<^verbatim>\<open>hello\<close> record, at byte \<open>2 ^ 32\<close>.\<close>

definition far_file :: "byte list" where
  "far_file = replicate 4294967296 0 @ hello_record"

text \<open>4 GiB of zero bytes: \<open>2 ^ 26\<close> padding units, none of them a record.\<close>

definition zero_file :: "byte list" where
  "zero_file = replicate 4294967296 0"

text \<open>Two \<^verbatim>\<open>hello\<close> records, at offsets 0 and 2, with 64 bytes of \<open>0xff\<close> between them.\<close>

definition two_record_file :: "byte list" where
  "two_record_file = hello_file @ replicate 64 255 @ hello_file"

text \<open>
  The same log after a crash in the middle of the next append: at offset 3 the header of a
  record of 1000 bytes, and nothing after it.
\<close>

definition crashed_file :: "byte list" where
  "crashed_file = two_record_file @ torn_header"

text \<open>64 bytes of \<open>0xff\<close>, then the \<^verbatim>\<open>hello\<close> record at offset 1.\<close>

definition junk_then_hello :: "byte list" where
  "junk_then_hello = replicate 64 255 @ hello_file"

text \<open>A callback that counts its calls, and one that fails with \<^verbatim>\<open>EBADSLT\<close>.\<close>

definition count_cb :: "nat callback" where
  "count_cb d off n c = (None, Suc c)"

definition reject_cb :: "nat callback" where
  "reject_cb d off n c = (Some EBADSLT, Suc c)"

section \<open>Properties of ReadFromReader\<close>

subsection \<open>The positional reads it issues\<close>

lemma byte_position_mod:
  fixes offset p :: "32 word"
  shows "uint (offset * p) = int ((unat offset * unat p) mod 2 ^ 32)"
proof -
  have "unat (offset * p) = (unat offset * unat p) mod 2 ^ 32"
    by (simp add: unat_word_ariths)
  then show ?thesis by (metis uint_nat)
qed

lemma first_read_position:
  assumes "0 \<le> bsize" and "bsize \<le> maxAlloc g"
  shows "take 1 (snd (ReadFromReader g reader offset bsize)) = [(nat bsize, uint (offset * PAD g))]"
proof -
  obtain block err where r1: "reader (nat bsize) (uint (offset * PAD g)) = (block, err)"
    by fastforce
  obtain bs2 err2 where
    r2: "reader (unat (Uint32 (take 16 block))) (uint (offset * PAD g) + 16) = (bs2, err2)"
    by fastforce
  show ?thesis using assms
    by (simp add: ReadFromReader_def Let_def r1 r2 split: option.splits)
qed

lemma at_most_two_reads: "length (snd (ReadFromReader g reader offset bsize)) \<le> 2"
proof -
  obtain block err where r1: "reader (nat bsize) (uint (offset * PAD g)) = (block, err)"
    by fastforce
  obtain bs2 err2 where
    r2: "reader (unat (Uint32 (take 16 block))) (uint (offset * PAD g) + 16) = (bs2, err2)"
    by fastforce
  show ?thesis
    by (simp add: ReadFromReader_def Let_def r1 r2 split: option.splits)
qed

text \<open>
  C7.  The claim: the source is addressed at byte position \<open>offset * PAD\<close>, computed
  exactly, so that offsets reach beyond 4 GiB.  The code multiplies in \<^verbatim>\<open>uint32\<close> and
  widens the product afterwards, so the position is \<open>offset * PAD\<close> modulo \<open>2 ^ 32\<close>:
  with a padding of 64, offset \<open>2 ^ 26\<close> stands for byte \<open>2 ^ 32\<close>, and the read is
  issued at byte 0.
\<close>

theorem byte_position_wraps:
  "unat (67108864 :: 32 word) * unat (PAD sample_env) = 4294967296 \<and>
   take 1 (snd (ReadFromReader sample_env reader 67108864 4096)) = [(4096, 0)]"
  using first_read_position [of 4096 sample_env reader 67108864]
  by (simp add: sample_env_def)

text \<open>
  C5.  The claim: when the whole record fits inside the bytes returned by the initial read,
  no second read is issued.  The code compares with \<^verbatim>\<open><\<close>: a record that fills the
  block exactly (here 16 + 5 bytes read with a block size of 21) is read a second time,
  5 bytes at position 16.
\<close>

theorem exact_fit_reads_twice:
  "ReadFromReader sample_env (file_ReadAt hello_file) 0 21 =
     (Returns (Some hello, 1, None), [(21, 0), (5, 16)])"
  by code_simp

subsection \<open>Failed reads\<close>

text \<open>
  C10.  Whenever \<^verbatim>\<open>ReadFromReader\<close> returns an error, the data it returns is \<^verbatim>\<open>nil\<close> and
  the next offset is 0.
\<close>

theorem read_error_returns_nil_and_zero:
  "ReadFromReader g reader offset bsize = (Returns (d, nx, Some e), io) \<Longrightarrow> d = None \<and> nx = 0"
proof -
  assume a: "ReadFromReader g reader offset bsize = (Returns (d, nx, Some e), io)"
  obtain block err where r1: "reader (nat bsize) (uint (offset * PAD g)) = (block, err)"
    by fastforce
  obtain bs2 err2 where
    r2: "reader (unat (Uint32 (take 16 block))) (uint (offset * PAD g) + 16) = (bs2, err2)"
    by fastforce
  from a show ?thesis
    by (simp add: ReadFromReader_def Let_def r1 r2 split: if_splits option.splits)
qed

theorem read_error_returns_nil_and_zero_witness:
  "ReadFromReader sample_env (file_ReadAt []) 0 16 = (Returns (None, 0, Some EOF), [(16, 0)])
     \<and> (None :: byte list option) = None \<and> (0 :: 32 word) = 0"
proof -
  have h: "ReadFromReader sample_env (file_ReadAt []) 0 16 = (Returns (None, 0, Some EOF), [(16, 0)])"
    by code_simp
  from read_error_returns_nil_and_zero [OF h] h show ?thesis by simp
qed

subsection \<open>Reading from a file\<close>

lemma Uint32_take4: "4 \<le> length xs \<Longrightarrow> Uint32 (take 4 xs) = Uint32 xs"
proof -
  assume "4 \<le> length xs"
  then obtain a b c d r where "xs = a # b # c # d # r"
    by (cases xs; simp; (cases "tl xs"; simp; (cases "tl (tl xs)"; simp; (cases "tl (tl (tl xs))"; simp))))
  then show ?thesis by simp
qed

lemma replicate_4: "replicate 4 x = [x, x, x, x]"
  by (simp add: eval_nat_numeral)

text \<open>
  What \<^verbatim>\<open>ReadFromReader\<close> returns on a file, told from the bytes of the file alone: the
  block size and the choice between slicing the block and reading a second time do not
  show in the result.
\<close>

lemma file_read_semantics:
  assumes bs: "16 \<le> bsize" "bsize \<le> maxAlloc g" "2 ^ 32 \<le> maxAlloc g"
    and pad: "PAD g \<noteq> 0" and pos: "pos = unat (offset * PAD g)"
  shows "fst (ReadFromReader g (file_ReadAt f) offset bsize) =
    (if length f < pos + 16 then Returns (None, 0, Some EOF)
     else if \<not> magic_ok g f pos then Returns (None, 0, Some EBADSLT)
     else if \<not> header_checksum_ok g f pos then Returns (None, 0, Some EBADSLT)
     else if length f < pos + 16 + unat (metadata_length f pos) then Returns (None, 0, Some EOF)
     else if \<not> data_checksum_ok g f pos then Returns (None, 0, Some EBADSLT)
     else Returns (Some (payload_at f pos), next_offset g f offset, None))"
proof -
  have u1: "uint (offset * PAD g) = int pos"
    unfolding pos by (rule uint_nat)
  have u2: "nat (uint (offset * PAD g)) = pos"
    unfolding pos by (rule unat_eq_nat_uint [symmetric])
  note u = u1 u2
  define block where "block = take (nat bsize) (drop pos f)"
  have r1: "file_ReadAt f (nat bsize) (int pos) =
      (block, if length block < nat bsize then Some EOF else None)"
    by (simp add: file_ReadAt_def block_def Let_def)
  have lb: "length block = min (nat bsize) (length f - pos)" by (simp add: block_def)
  show ?thesis
  proof (cases "length f < pos + 16")
    case True
    then have "length block < 16" "length block < nat bsize" using lb bs by auto
    then show ?thesis using True bs
      by (simp add: ReadFromReader_def u r1 Let_def)
  next
    case False
    then have n16: "16 \<le> length block" "length block \<le> nat bsize" using lb bs by auto
    have hd: "take 16 block = header_at f pos"
      using bs by (simp add: block_def header_at_def min_def)
    have hl: "length (header_at f pos) = 16" using False by (simp add: header_at_def)
    have ml: "Uint32 (header_at f pos) = metadata_length f pos"
      using hl by (simp add: metadata_length_def Uint32_take4)
    have dc: "Uint32 (drop 4 (header_at f pos)) = Uint32 (slice (header_at f pos) 4 8)"
      using hl by (simp add: slice_def Uint32_take4)
    let ?len = "unat (metadata_length f pos)"
    have "uint (metadata_length f pos) < 2 ^ 32"
      using uint_bounded [of "metadata_length f pos"] by simp
    then have al2: "\<not> maxAlloc g < uint (metadata_length f pos)" using bs(3) by simp
    have r2: "file_ReadAt f ?len (int pos + 16) =
        (take ?len (drop (pos + 16) f), if length f < pos + 16 + ?len then Some EOF else None)"
      using False by (auto simp: file_ReadAt_def Let_def nat_add_distrib)
    have fit: "slice block 16 (16 + ?len) = payload_at f pos \<and> \<not> length f < pos + 16 + ?len"
      if "uint (metadata_length f pos) < int (length block) - 16"
    proof -
      from that have a: "?len + 16 < length block"
        unfolding uint_nat by linarith
      then have b: "?len + 16 < nat bsize" "?len + 16 < length f - pos" using lb by auto
      have "slice block 16 (16 + ?len) = take ?len (take (nat bsize - 16) (drop (pos + 16) f))"
        by (simp add: slice_def block_def drop_take add.commute)
      also have "\<dots> = take ?len (drop (pos + 16) f)" using b by (simp add: min_def)
      finally show ?thesis using b by (simp add: payload_at_def)
    qed
    have r2': "file_ReadAt f ?len (int pos + 16) =
        (payload_at f pos, if length f < pos + 16 + ?len then Some EOF else None)"
      using r2 by (simp add: payload_at_def)
    have pl: "length (payload_at f pos) = ?len" if "\<not> length f < pos + 16 + ?len"
      using that by (simp add: payload_at_def)
    show ?thesis
    proof (cases "magic_ok g f pos \<and> header_checksum_ok g f pos")
      case False
      then show ?thesis using \<open>\<not> length f < pos + 16\<close> n16 bs
        by (auto simp: ReadFromReader_def u r1 Let_def hd magic_ok_def header_checksum_ok_def)
    next
      case True
      then have m: "slice (header_at f pos) 8 12 = MAGIC g"
        and h: "Uint32 (slice (header_at f pos) 12 16) = ucast (Hash g (take 12 (header_at f pos)))"
        by (simp_all add: magic_ok_def header_checksum_ok_def)
      note ctx = \<open>\<not> length f < pos + 16\<close> n16 bs(1,2) al2 pad m h True
      show ?thesis
      proof (cases "uint (metadata_length f pos) < int (length block) - 16")
        case True
        with fit show ?thesis using ctx
          by (simp add: ReadFromReader_def u r1 Let_def hd ml dc data_checksum_ok_def
              next_offset_def pos[symmetric])
      next
        case nf: False
        show ?thesis
        proof (cases "length f < pos + 16 + ?len")
          case True
          then show ?thesis using nf ctx
            by (simp add: ReadFromReader_def u r1 r2' Let_def hd ml dc pos[symmetric])
        next
          case False
          then show ?thesis using nf pl ctx
            by (simp add: ReadFromReader_def u r1 r2' Let_def hd ml dc data_checksum_ok_def
                next_offset_def pos[symmetric])
        qed
      qed
    qed
  qed
qed

lemma read_valid_record:
  assumes "16 \<le> bsize" "bsize \<le> maxAlloc g" "2 ^ 32 \<le> maxAlloc g"
    and "PAD g \<noteq> 0" and "pos = unat (offset * PAD g)"
    and "record_at g f pos"
  shows "fst (ReadFromReader g (file_ReadAt f) offset bsize) =
           Returns (Some (payload_at f pos), next_offset g f offset, None)"
  using assms(6) by (simp add: file_read_semantics [OF assms(1-5)] record_at_def)

text \<open>
  C1.  The claim: a record laid out at byte position \<open>offset * PAD\<close> is returned by
  \<^verbatim>\<open>read(offset)\<close>, with the next offset.  \<open>read_valid_record\<close> shows it for the
  position the code computes, which is \<open>offset * PAD\<close> only below \<open>2 ^ 32\<close>
  (\<open>record_read\<close>).  At offset
  \<open>2 ^ 26\<close> with a padding of 64 the record lies at byte \<open>2 ^ 32\<close>; the code reads at
  byte 0, finds no magic bytes in the zeros there, and answers \<^verbatim>\<open>EBADSLT\<close>.
\<close>

theorem record_beyond_4GiB_is_not_read:
  "record_at sample_env far_file (67108864 * 64) \<and>
   payload_at far_file (67108864 * 64) = hello \<and>
   fst (ReadFromReader sample_env (file_ReadAt far_file) 67108864 4096) =
     Returns (None, 0, Some EBADSLT)"
proof -
  have r: "record_at sample_env far_file (67108864 * 64)"
    by (simp add: record_at_def metadata_length_def header_at_def magic_ok_def
        header_checksum_ok_def data_checksum_ok_def payload_at_def far_file_def hello_record_def
        hello_def sample_env_def sample_Hash_def slice_def)
  have q: "payload_at far_file (67108864 * 64) = hello"
    by (simp add: metadata_length_def header_at_def payload_at_def far_file_def hello_record_def
        hello_def)
  have p: "(0::nat) = unat ((67108864 :: 32 word) * PAD sample_env)"
    by (simp add: sample_env_def)
  have m: "\<not> magic_ok sample_env far_file 0"
    by (simp add: magic_ok_def header_at_def far_file_def sample_env_def slice_def replicate_4)
  have l: "\<not> length far_file < 0 + 16" by (simp add: far_file_def)
  have e: "(16::int) \<le> 4096" "4096 \<le> maxAlloc sample_env" "2 ^ 32 \<le> maxAlloc sample_env"
    "PAD sample_env \<noteq> 0"
    by (simp_all add: sample_env_def)
  from file_read_semantics [OF e p, of far_file] m l
  have "fst (ReadFromReader sample_env (file_ReadAt far_file) 67108864 4096) =
      Returns (None, 0, Some EBADSLT)"
    by simp
  with r q show ?thesis by simp
qed

text \<open>
  C2, as the claim states it: \<^verbatim>\<open>EBADSLT\<close> whenever one of the three checks fails.  At
  offset 0 of this file the header passes the magic and the header checksum check and the
  data checksum check fails on the bytes that are there, but the payload announced is
  longer than the file: the second read reports \<^verbatim>\<open>io.EOF\<close>, and that is what is
  returned.
\<close>

theorem torn_payload_is_not_corrupt:
  "magic_ok sample_env torn_file 0 \<and> header_checksum_ok sample_env torn_file 0 \<and>
   \<not> data_checksum_ok sample_env torn_file 0 \<and>
   fst (ReadFromReader sample_env (file_ReadAt torn_file) 0 4096) = Returns (None, 0, Some EOF)"
  by code_simp

text \<open>
  C2, amended.  With a block size that can be allocated, \<^verbatim>\<open>ReadFromReader\<close> answers
  \<^verbatim>\<open>EBADSLT\<close> if and only if the 16 header bytes are in the file at the position read and
  the magic bytes differ, or the header checksum differs, or the payload is in the file as
  well and the data checksum differs; and it succeeds if and only if header and payload are
  in the file and all three checks hold.
\<close>

theorem corrupt_iff_a_readable_check_fails:
  assumes "16 \<le> bsize" and "bsize \<le> maxAlloc g" and "2 ^ 32 \<le> maxAlloc g"
    and "PAD g \<noteq> 0" and "pos = unat (offset * PAD g)"
  shows "((\<exists>d n. fst (ReadFromReader g (file_ReadAt f) offset bsize) = Returns (d, n, Some EBADSLT))
            \<longleftrightarrow> pos + 16 \<le> length f \<and>
                (\<not> magic_ok g f pos \<or> \<not> header_checksum_ok g f pos \<or>
                 (pos + 16 + unat (metadata_length f pos) \<le> length f \<and>
                  \<not> data_checksum_ok g f pos)))
       \<and> ((\<exists>d n. fst (ReadFromReader g (file_ReadAt f) offset bsize) = Returns (Some d, n, None))
            \<longleftrightarrow> pos + 16 + unat (metadata_length f pos) \<le> length f \<and>
                magic_ok g f pos \<and> header_checksum_ok g f pos \<and> data_checksum_ok g f pos)"
  by (auto simp: file_read_semantics [OF assms])

theorem corrupt_iff_a_readable_check_fails_witness:
  "(\<exists>d n. fst (ReadFromReader sample_env (file_ReadAt hello_file) 0 16) = Returns (Some d, n, None)) \<and>
   \<not> (\<exists>d n. fst (ReadFromReader sample_env (file_ReadAt hello_file) 0 16) =
           Returns (d, n, Some EBADSLT)) \<and>
   (\<exists>d n. fst (ReadFromReader sample_env (file_ReadAt junk_then_hello) 0 16) =
           Returns (d, n, Some EBADSLT))"
proof -
  have a: "(16::int) \<le> 16" "16 \<le> maxAlloc sample_env" "2 ^ 32 \<le> maxAlloc sample_env"
    "PAD sample_env \<noteq> 0" "(0::nat) = unat ((0 :: 32 word) * PAD sample_env)"
    by (simp_all add: sample_env_def)
  have b: "magic_ok sample_env hello_file 0" "header_checksum_ok sample_env hello_file 0"
    "data_checksum_ok sample_env hello_file 0"
    "0 + 16 + unat (metadata_length hello_file 0) \<le> length hello_file"
    by code_simp+
  have c: "0 + 16 \<le> length junk_then_hello" "\<not> magic_ok sample_env junk_then_hello 0"
    by code_simp+
  from corrupt_iff_a_readable_check_fails [OF a, of hello_file]
    corrupt_iff_a_readable_check_fails [OF a, of junk_then_hello] b c
  show ?thesis by simp
qed

subsection \<open>End of data\<close>

text \<open>
  C6, as the claim states it: \<^verbatim>\<open>io.EOF\<close> is returned only when fewer than 16 bytes are
  available at the position.  Here 128 bytes are available at position 0; the header
  passes its checks and announces 1000 bytes, the second read comes back short, and its
  \<^verbatim>\<open>io.EOF\<close> is returned.
\<close>

theorem eof_with_a_whole_header_available:
  "16 \<le> length torn_file \<and>
   ReadFromReader sample_env (file_ReadAt torn_file) 0 16 =
     (Returns (None, 0, Some EOF), [(16, 0), (1000, 16)])"
  by code_simp

text \<open>
  C6, amended.  Any error other than \<^verbatim>\<open>EBADSLT\<close> (so \<^verbatim>\<open>io.EOF\<close> too) is returned exactly
  when the source reported that error on one of the two positional reads: on the initial
  read, if it returned fewer than 16 bytes; or on the second read, issued once the header
  has passed its two checks and the payload does not lie strictly inside the block (the
  block and the buffer of the second read being of a size that can be allocated).
  The error is passed on unchanged, and \<^verbatim>\<open>io.EOF\<close> differs from \<^verbatim>\<open>EBADSLT\<close> and from
  every other I/O error.
\<close>

theorem error_comes_from_a_positional_read:
  assumes "0 \<le> bsize" and "e \<noteq> EBADSLT" and "pos = uint (offset * PAD g)"
    and "reader (nat bsize) pos = (block, err1)"
    and "reader (unat (Uint32 (take 16 block))) (pos + 16) = (bs2, err2)"
  shows "((\<exists>d n. fst (ReadFromReader g reader offset bsize) = Returns (d, n, Some e)) \<longleftrightarrow>
      bsize \<le> maxAlloc g \<and>
      ((length block < 16 \<and> err1 = Some e) \<or>
       (16 \<le> length block \<and> length block \<le> nat bsize \<and> header_valid g block \<and> PAD g \<noteq> 0 \<and>
          \<not> uint (Uint32 (take 16 block)) < int (length block) - 16 \<and>
          uint (Uint32 (take 16 block)) \<le> maxAlloc g \<and> err2 = Some e)))
      \<and> EOF \<noteq> EBADSLT \<and> EOF \<noteq> IOError k"
  using assms
  by (auto simp: ReadFromReader_def Let_def header_valid_def split: option.splits)

theorem error_comes_from_a_positional_read_witness:
  "file_ReadAt torn_file (nat 16) 0 = (torn_header, None) \<and>
   file_ReadAt torn_file (unat (Uint32 (take 16 torn_header))) (0 + 16) =
     (replicate 48 0 @ hello_file, Some EOF) \<and>
   (\<exists>d n. fst (ReadFromReader sample_env (file_ReadAt torn_file) 0 16) = Returns (d, n, Some EOF))"
proof -
  have a: "(0::int) \<le> 16" "EOF \<noteq> EBADSLT" "(0::int) = uint ((0 :: 32 word) * PAD sample_env)"
    by simp_all
  have b: "file_ReadAt torn_file (nat 16) 0 = (torn_header, None)"
    by code_simp
  have c: "file_ReadAt torn_file (unat (Uint32 (take 16 torn_header))) (0 + 16) =
      (replicate 48 0 @ hello_file, Some EOF)"
    by code_simp
  have d: "16 \<le> maxAlloc sample_env \<and> 16 \<le> length torn_header \<and>
      length torn_header \<le> nat 16 \<and>
      header_valid sample_env torn_header \<and> PAD sample_env \<noteq> 0 \<and>
      \<not> uint (Uint32 (take 16 torn_header)) < int (length torn_header) - 16 \<and>
      uint (Uint32 (take 16 torn_header)) \<le> maxAlloc sample_env"
    by code_simp
  from error_comes_from_a_positional_read [OF a b c, of 0] b c d show ?thesis by simp
qed

section \<open>Properties of ScanFromReader\<close>

subsection \<open>One turn of the loop\<close>

lemma scan_loop_corrupt:
  "fst (ReadFromReader g rd off bs) = Returns (d, n, Some EBADSLT) \<Longrightarrow>
   scan_loop g rd bs cb off st tr =
   scan_loop g rd bs cb (off + 1) st (tr @ [Probe off (Returns (d, n, Some EBADSLT))])"
  by (subst scan_loop.simps) (simp add: scan_turn_def)

lemma scan_loop_eof:
  "fst (ReadFromReader g rd off bs) = Returns (d, n, Some EOF) \<Longrightarrow>
   scan_loop g rd bs cb off st tr = Some (Returns None, st, tr @ [Probe off (Returns (d, n, Some EOF))])"
  by (subst scan_loop.simps) (simp add: scan_turn_def)

lemma scan_loop_record:
  "fst (ReadFromReader g rd off bs) = Returns (d, n, None) \<Longrightarrow> cb d off n st = (None, st') \<Longrightarrow>
   scan_loop g rd bs cb off st tr =
   scan_loop g rd bs cb n st' (tr @ [Probe off (Returns (d, n, None)), Invoke d off n])"
  by (subst scan_loop.simps) (simp add: scan_turn_def)

lemmas scan_loop_induct = scan_loop.raw_induct [rotated 1, consumes 1, case_names turn]

lemma never_returns_if_all_corrupt:
  assumes "scan_loop g rd bs cb off st tr = Some r"
    and "\<And>off. \<exists>d n. fst (ReadFromReader g rd off bs) = Returns (d, n, Some EBADSLT)"
  shows False
  using assms
proof (induction rule: scan_loop_induct)
  case (turn scan g rd bs cb off st tr r)
  from turn(3) obtain d n where "fst (ReadFromReader g rd off bs) = Returns (d, n, Some EBADSLT)"
    by blast
  with turn(2)
  have "scan g rd bs cb (off + 1) st (tr @ [Probe off (Returns (d, n, Some EBADSLT))]) = Some r"
    by (simp add: scan_turn_def)
  from turn(1) [OF this turn(3)] show False .
qed

subsection \<open>The trace of a scan that returns\<close>

lemma turn_stop: "scan_turn g rd bs cb off st = (Inl r0, st1, evs) \<Longrightarrow> run_from off evs"
  by (auto simp: scan_turn_def Let_def split: exec.splits prod.splits if_splits option.splits)

lemma turn_go:
  "scan_turn g rd bs cb off st = (Inr off1, st1, evs) \<Longrightarrow> run_from off1 evs' \<Longrightarrow>
   run_from off (evs @ evs')"
  by (auto simp: scan_turn_def Let_def split: exec.splits prod.splits if_splits option.splits)

lemma scan_trace_run:
  assumes "scan_loop g rd bs cb off st tr = Some res"
  shows "\<exists>evs. snd (snd res) = tr @ evs \<and> run_from off evs"
  using assms
proof (induction rule: scan_loop_induct)
  case (turn scan g rd bs cb off st tr res)
  obtain x st1 evs where t: "scan_turn g rd bs cb off st = (x, st1, evs)"
    by (cases "scan_turn g rd bs cb off st") auto
  show ?case
  proof (cases x)
    case (Inl r0)
    with t turn(2) turn_stop [of g rd bs cb off st r0 st1 evs] show ?thesis by auto
  next
    case (Inr off1)
    with t turn(2) have "scan g rd bs cb off1 st1 (tr @ evs) = Some res" by simp
    from turn(1) [OF this] obtain evs' where
      "snd (snd res) = (tr @ evs) @ evs'" "run_from off1 evs'" by blast
    with turn_go [of g rd bs cb off st off1 st1 evs evs'] t Inr show ?thesis by auto
  qed
qed

lemma run_from_starts: "run_from c evs \<Longrightarrow> \<exists>r rest. evs = Probe c r # rest"
  by (induction c evs rule: run_from.induct) auto

lemma run_from_corrupt:
  "run_from c evs \<Longrightarrow> i < length evs \<Longrightarrow> evs ! i = Probe k (Returns (d, n, Some EBADSLT)) \<Longrightarrow>
   Suc i < length evs \<and> (\<exists>r. evs ! Suc i = Probe (k + 1) r)"
proof (induction c evs arbitrary: i rule: run_from.induct)
  case (4 c k' d' n' e evs)
  show ?case
  proof (cases i)
    case 0
    with 4 have "e = EBADSLT" "k' = c" "k = c" "run_from (c + 1) evs" by (auto split: if_splits)
    with run_from_starts [of "c + 1" evs] 0 show ?thesis by auto
  next
    case (Suc j)
    with 4 show ?thesis by (auto split: if_splits)
  qed
next
  case (7 c k' d' n' d'' k'' n'' evs)
  show ?case
  proof (cases i)
    case 0
    with 7 show ?thesis by auto
  next
    case (Suc j)
    show ?thesis
    proof (cases j)
      case 0
      with Suc 7 show ?thesis by auto
    next
      case (Suc l)
      with \<open>i = Suc j\<close> 7 show ?thesis by auto
    qed
  qed
qed (auto simp: nth_Cons')

lemma run_from_invoke:
  "run_from c evs \<Longrightarrow> Suc i < length evs \<Longrightarrow> evs ! i = Invoke d k n \<Longrightarrow>
   \<exists>r. evs ! Suc i = Probe n r"
proof (induction c evs arbitrary: i rule: run_from.induct)
  case (4 c k' d' n' e evs)
  show ?case
  proof (cases i)
    case 0
    with 4 show ?thesis by auto
  next
    case (Suc j)
    with 4 show ?thesis by (auto split: if_splits)
  qed
next
  case (7 c k' d' n' d'' k'' n'' evs)
  show ?case
  proof (cases i)
    case 0
    with 7 show ?thesis by auto
  next
    case (Suc j)
    show ?thesis
    proof (cases j)
      case 0
      with Suc 7 run_from_starts [of n' evs] show ?thesis by auto
    next
      case (Suc l)
      with \<open>i = Suc j\<close> 7 show ?thesis by auto
    qed
  qed
qed (auto simp: nth_Cons')

lemma ebadslt_result_from_callback:
  assumes "scan_loop g rd bs cb off st tr = Some (Returns (Some EBADSLT), st', tr')"
  shows "\<exists>d k n s. last tr' = Invoke d k n \<and> cb d k n s = (Some EBADSLT, st')"
  using assms
proof (induction g rd bs cb off st tr "(Returns (Some EBADSLT) :: error option exec, st', tr')" rule: scan_loop_induct)
  case (turn scan g rd bs cb off st tr)
  obtain x st1 evs where t: "scan_turn g rd bs cb off st = (x, st1, evs)"
    by (cases "scan_turn g rd bs cb off st") auto
  show ?case
  proof (cases x)
    case (Inl r0)
    with t turn(2) show ?thesis
      by (auto simp: scan_turn_def Let_def split: exec.splits prod.splits if_splits option.splits)
  next
    case (Inr off1)
    with t turn(2) have "scan g rd bs cb off1 st1 (tr @ evs) = Some (Returns (Some EBADSLT), st', tr')" by simp
    from turn(1) [OF this] show ?thesis by simp
  qed
qed

lemma invocations_append: "invocations (xs @ ys) = invocations xs @ invocations ys"
  by (induction xs rule: invocations.induct) auto

lemma invocations_probes: "invocations (map (\<lambda>j. Probe (h j) (r j)) js) = []"
  by (induction js) auto

text \<open>
  C3.  Whenever a probe at offset \<open>off\<close> yields \<^verbatim>\<open>EBADSLT\<close>, the turn of the loop ends
  with the cursor at \<open>off + 1\<close> (in \<^verbatim>\<open>uint32\<close> arithmetic), which is never \<open>off\<close> itself,
  the callback not called; in the trace of a scan that returns, such a probe is never the
  last event, and the event after it is the probe at \<open>off + 1\<close>; and a scan returns
  \<^verbatim>\<open>EBADSLT\<close> only when that is what the callback returned in the last event.
\<close>

theorem corrupt_probe_advances_by_one:
  "(fst (ReadFromReader g reader off bsize) = Returns (d, n, Some EBADSLT) \<longrightarrow>
      off + 1 \<noteq> off \<and>
      scan_turn g reader bsize cb off st =
        (Inr (off + 1), st, [Probe off (Returns (d, n, Some EBADSLT))]))
   \<and> (ScanFromReader g reader start bsize cb st = Some (res, st', tr) \<and> i < length tr \<and>
        tr ! i = Probe off (Returns (d, n, Some EBADSLT)) \<longrightarrow>
        Suc i < length tr \<and> (\<exists>r. tr ! Suc i = Probe (off + 1) r))
   \<and> (ScanFromReader g reader start bsize cb st = Some (Returns (Some EBADSLT), st', tr) \<longrightarrow>
        (\<exists>d k n s. last tr = Invoke d k n \<and> cb d k n s = (Some EBADSLT, st')))"
proof -
  have p1: "off + 1 \<noteq> off \<and>
      scan_turn g reader bsize cb off st =
        (Inr (off + 1), st, [Probe off (Returns (d, n, Some EBADSLT))])"
    if "fst (ReadFromReader g reader off bsize) = Returns (d, n, Some EBADSLT)"
    using that by (simp add: scan_turn_def)
  have p2: "Suc i < length tr \<and> (\<exists>r. tr ! Suc i = Probe (off + 1) r)"
    if a: "ScanFromReader g reader start bsize cb st = Some (res, st', tr) \<and> i < length tr \<and>
        tr ! i = Probe off (Returns (d, n, Some EBADSLT))"
  proof -
    from a have "scan_loop g reader bsize cb start st [] = Some (res, st', tr)"
      by (simp add: ScanFromReader_def)
    from scan_trace_run [OF this] have "run_from start tr" by simp
    from run_from_corrupt [OF this] a show ?thesis by blast
  qed
  have p3: "\<exists>d k n s. last tr = Invoke d k n \<and> cb d k n s = (Some EBADSLT, st')"
    if "ScanFromReader g reader start bsize cb st = Some (Returns (Some EBADSLT), st', tr)"
  proof -
    from that have "scan_loop g reader bsize cb start st [] = Some (Returns (Some EBADSLT), st', tr)"
      by (simp add: ScanFromReader_def)
    from ebadslt_result_from_callback [OF this] show ?thesis .
  qed
  from p1 p2 p3 show ?thesis by blast
qed

theorem corrupt_probe_advances_by_one_witness:
  "fst (ReadFromReader sample_env (file_ReadAt junk_then_hello) 0 16) = Returns (None, 0, Some EBADSLT) \<and>
   scan_turn sample_env (file_ReadAt junk_then_hello) 16 reject_cb 0 0 =
     (Inr 1, 0, [Probe 0 (Returns (None, 0, Some EBADSLT))]) \<and>
   ScanFromReader sample_env (file_ReadAt junk_then_hello) 0 16 reject_cb 0 =
     Some (Returns (Some EBADSLT), 1,
       [Probe 0 (Returns (None, 0, Some EBADSLT)), Probe 1 (Returns (Some hello, 2, None)),
        Invoke (Some hello) 1 2]) \<and>
   (\<exists>r. [Probe 0 (Returns (None, 0, Some EBADSLT)), Probe 1 (Returns (Some hello, 2, None)),
        Invoke (Some hello) 1 2] ! Suc 0 = Probe (0 + 1) r) \<and>
   (\<exists>d k n s. reject_cb d k n s = (Some EBADSLT, 1))"
proof -
  have a: "fst (ReadFromReader sample_env (file_ReadAt junk_then_hello) 0 16) =
      Returns (None, 0, Some EBADSLT)"
    by code_simp
  have b: "ScanFromReader sample_env (file_ReadAt junk_then_hello) 0 16 reject_cb 0 =
     Some (Returns (Some EBADSLT), 1,
       [Probe 0 (Returns (None, 0, Some EBADSLT)), Probe 1 (Returns (Some hello, 2, None)),
        Invoke (Some hello) 1 2])"
    by code_simp
  from corrupt_probe_advances_by_one
    [where g = sample_env and reader = "file_ReadAt junk_then_hello" and off = 0 and bsize = 16
      and d = None and n = 0 and cb = reject_cb and st = 0 and start = 0
      and res = "Returns (Some EBADSLT)" and st' = 1 and i = 0
      and tr = "[Probe 0 (Returns (None, 0, Some EBADSLT)), Probe 1 (Returns (Some hello, 2, None)),
        Invoke (Some hello) 1 2]"]
    a b
  show ?thesis by auto
qed

subsection \<open>Scanning a file\<close>

text \<open>
  Offset \<open>k\<close> is read at byte \<open>k * PAD\<close> as long as that is below \<open>2 ^ 32\<close>.  Under
  that condition the scan walks through a run of corrupt offsets one by one, steps over a
  valid record to the offset after its padding, and returns at the first offset where the
  data ends.
\<close>

lemma exact_position:
  assumes "k * unat (PAD g) < 2 ^ 32" and "PAD g \<noteq> 0"
  shows "unat (word_of_nat k * PAD g) = k * unat (PAD g)"
proof -
  have "unat (PAD g) \<noteq> 0" using assms(2) by (simp add: unat_eq_0)
  then have "k \<le> k * unat (PAD g)" by simp
  from this assms(1) have k: "k < 2 ^ 32" by (rule le_less_trans)
  have "unat (word_of_nat k :: 32 word) = k" using k by (simp add: unat_of_nat)
  then show ?thesis using assms(1) by (simp add: unat_word_ariths)
qed

lemma corrupt_read:
  assumes "16 \<le> bs" "bs \<le> maxAlloc g" "2 ^ 32 \<le> maxAlloc g"
    and "PAD g \<noteq> 0" and "k * unat (PAD g) < 2 ^ 32"
    and "corrupt_at g f (k * unat (PAD g))"
  shows "fst (ReadFromReader g (file_ReadAt f) (word_of_nat k) bs) = Returns (None, 0, Some EBADSLT)"
proof -
  have p: "k * unat (PAD g) = unat (word_of_nat k * PAD g)"
    using exact_position [OF assms(5,4)] by simp
  from assms(6) show ?thesis
    unfolding file_read_semantics [OF assms(1-4) p] corrupt_at_def by auto
qed

lemma eof_read:
  assumes "16 \<le> bs" "bs \<le> maxAlloc g" "2 ^ 32 \<le> maxAlloc g"
    and "PAD g \<noteq> 0" and "k * unat (PAD g) < 2 ^ 32"
    and "eof_at g f (k * unat (PAD g))"
  shows "fst (ReadFromReader g (file_ReadAt f) (word_of_nat k) bs) = Returns (None, 0, Some EOF)"
proof -
  have p: "k * unat (PAD g) = unat (word_of_nat k * PAD g)"
    using exact_position [OF assms(5,4)] by simp
  from assms(6) show ?thesis
    unfolding file_read_semantics [OF assms(1-4) p] eof_at_def by auto
qed

lemma scan_corrupt_run:
  assumes "16 \<le> bs" "bs \<le> maxAlloc g" "2 ^ 32 \<le> maxAlloc g" and "PAD g \<noteq> 0"
  shows "a \<le> b \<Longrightarrow> corrupt_run g f a b \<Longrightarrow> b * unat (PAD g) < 2 ^ 32 + unat (PAD g) \<Longrightarrow>
    scan_loop g (file_ReadAt f) bs cb (word_of_nat a) st tr =
    scan_loop g (file_ReadAt f) bs cb (word_of_nat b) st
      (tr @ map (\<lambda>j. Probe (word_of_nat j) (Returns (None, 0, Some EBADSLT))) [a..<b])"
proof (induction "b - a" arbitrary: a tr)
  case 0
  then show ?case by simp
next
  case (Suc m)
  then have ab: "a < b" by simp
  then have u: "[a..<b] = a # [Suc a..<b]" by (simp add: upt_conv_Cons)
  have "Suc a * unat (PAD g) \<le> b * unat (PAD g)" using ab by (simp add: Suc_leI mult_le_mono1 del: mult_Suc)
  then have ex: "a * unat (PAD g) < 2 ^ 32" using Suc.prems(3) by simp
  have c: "corrupt_at g f (a * unat (PAD g))" "corrupt_run g f (Suc a) b"
    using Suc.prems(2) u by (simp_all add: corrupt_run_def)
  have "scan_loop g (file_ReadAt f) bs cb (word_of_nat a) st tr =
      scan_loop g (file_ReadAt f) bs cb (word_of_nat a + 1) st
        (tr @ [Probe (word_of_nat a) (Returns (None, 0, Some EBADSLT))])"
    by (rule scan_loop_corrupt [OF corrupt_read [OF assms ex c(1)]])
  also have "(word_of_nat a + 1 :: 32 word) = word_of_nat (Suc a)" by simp
  also have "scan_loop g (file_ReadAt f) bs cb (word_of_nat (Suc a)) st
        (tr @ [Probe (word_of_nat a) (Returns (None, 0, Some EBADSLT))]) =
      scan_loop g (file_ReadAt f) bs cb (word_of_nat b) st
        ((tr @ [Probe (word_of_nat a) (Returns (None, 0, Some EBADSLT))]) @
          map (\<lambda>j. Probe (word_of_nat j) (Returns (None, 0, Some EBADSLT))) [Suc a..<b])"
    using Suc.hyps(2) ab c(2) Suc.prems(3) by (intro Suc.hyps(1)) auto
  finally show ?case using u by simp
qed


lemma next_offset_exact:
  assumes "PAD g \<noteq> 0" and "pos = unat (off * PAD g)"
    and "16 + unat (metadata_length f pos) + unat (PAD g) < 2 ^ 32"
  shows "next_offset g f off = off + word_of_nat (units g (unat (metadata_length f pos)))"
proof -
  let ?ml = "metadata_length f pos"
  have a: "unat (16 + ?ml) = 16 + unat ?ml"
    using assms(3) by (simp add: unat_word_ariths)
  have b: "unat (16 + ?ml + PAD g) = 16 + unat ?ml + unat (PAD g)"
    using assms(3) a by (simp add: unat_word_ariths(1) [of "16 + ?ml" "PAD g"])
  then have nz: "16 + ?ml + PAD g \<noteq> 0" by (metis add_is_0 unat_0 zero_neq_numeral)
  have c: "unat (16 + ?ml + PAD g - 1) = 16 + unat ?ml + unat (PAD g) - 1"
    unfolding unat_minus_one [OF nz] b ..
  have d: "(16 + ?ml + PAD g - 1) div PAD g =
      word_of_nat (unat (16 + ?ml + PAD g - 1) div unat (PAD g))"
    by (rule word_arith_nat_div)
  have e: "unat (16 + ?ml + PAD g - 1) div unat (PAD g) = units g (unat ?ml)"
    unfolding c units_def ..
  show ?thesis
    unfolding next_offset_def assms(2) [symmetric] d e ..
qed

lemma record_read:
  assumes "16 \<le> bs" "bs \<le> maxAlloc g" "2 ^ 32 \<le> maxAlloc g"
    and "PAD g \<noteq> 0" and "length f + unat (PAD g) < 2 ^ 32"
    and "record_at g f (k * unat (PAD g))" and "payload_at f (k * unat (PAD g)) = p"
  shows "fst (ReadFromReader g (file_ReadAt f) (word_of_nat k) bs) =
    Returns (Some p, word_of_nat (k + units g (length p)), None)"
proof -
  let ?pos = "k * unat (PAD g)"
  have av: "?pos + 16 + unat (metadata_length f ?pos) \<le> length f"
    using assms(6) by (simp add: record_at_def)
  then have ex: "?pos < 2 ^ 32" using assms(5) by simp
  have pos: "?pos = unat (word_of_nat k * PAD g)"
    using exact_position [OF ex assms(4)] by simp
  have len: "length p = unat (metadata_length f ?pos)"
    using av assms(7) by (auto simp: payload_at_def)
  have small: "16 + unat (metadata_length f ?pos) + unat (PAD g) < 2 ^ 32"
    using av assms(5) by simp
  have "next_offset g f (word_of_nat k) = word_of_nat (k + units g (length p))"
    using next_offset_exact [OF assms(4) pos small] len by simp
  with read_valid_record [OF assms(1-4) pos assms(6)] assms(7) show ?thesis by simp
qed

lemma units_bound:
  assumes "PAD g \<noteq> 0"
  shows "0 < units g len" and "units g len * unat (PAD g) < 16 + len + unat (PAD g)"
proof -
  have p: "0 < unat (PAD g)" using assms by (simp add: unat_gt_0)
  then have "unat (PAD g) \<le> 16 + len + unat (PAD g) - 1" by simp
  with p show "0 < units g len" by (simp add: units_def div_greater_zero_iff)
  have "units g len * unat (PAD g) \<le> 16 + len + unat (PAD g) - 1"
    by (simp add: units_def)
  with p show "units g len * unat (PAD g) < 16 + len + unat (PAD g)" by simp
qed

lemma end_offset_props:
  assumes "PAD g \<noteq> 0"
  shows "length f < end_offset g f * unat (PAD g) + 16"
    and "end_offset g f * unat (PAD g) < length f + unat (PAD g)"
proof -
  have p: "0 < unat (PAD g)" using assms by (simp add: unat_gt_0)
  show "length f < end_offset g f * unat (PAD g) + 16"
  proof (cases "length f < 16")
    case True
    then show ?thesis by (simp add: end_offset_def)
  next
    case False
    have "length f - 16 < ((length f - 16) div unat (PAD g) + 1) * unat (PAD g)"
      using p by (metis Suc_eq_plus1 dividend_less_div_times mult.commute mult_Suc_right)
    with False show ?thesis by (simp add: end_offset_def)
  qed
  show "end_offset g f * unat (PAD g) < length f + unat (PAD g)"
  proof (cases "length f < 16")
    case True
    with p show ?thesis by (simp add: end_offset_def)
  next
    case False
    have a: "(length f - 16) div unat (PAD g) * unat (PAD g) \<le> length f - 16" by simp
    have b: "end_offset g f * unat (PAD g) =
        (length f - 16) div unat (PAD g) * unat (PAD g) + unat (PAD g)"
      using False by (simp add: end_offset_def)
    from a b False show ?thesis by linarith
  qed
qed

lemma end_offset_least:
  assumes "PAD g \<noteq> 0" and "end_offset g f \<le> c"
  shows "length f < c * unat (PAD g) + 16"
  using mult_le_mono1 [OF assms(2), of "unat (PAD g)"] end_offset_props(1) [OF assms(1), of f]
  by linarith


lemma eof_at_end:
  assumes "PAD g \<noteq> 0" and "end_offset g f \<le> c"
  shows "eof_at g f (c * unat (PAD g))"
  using end_offset_least [OF assms] by (simp add: eof_at_def)

lemma scan_end:
  assumes "16 \<le> bs" "bs \<le> maxAlloc g" "2 ^ 32 \<le> maxAlloc g"
    and "PAD g \<noteq> 0" and "length f + unat (PAD g) < 2 ^ 32"
    and "log_layout g f c []" and "c * unat (PAD g) < length f + unat (PAD g)"
  shows "\<exists>evs e. scan_loop g (file_ReadAt f) bs cb (word_of_nat c) st tr =
           Some (Returns None, st, tr @ evs) \<and> invocations evs = [] \<and> evs \<noteq> [] \<and>
           last evs = Probe e (Returns (None, 0, Some EOF))"
proof -
  have "\<exists>e \<in> set [c..<Suc (max c (end_offset g f))].
      corrupt_run g f c e \<and> eof_at g f (e * unat (PAD g))"
    using assms(6) unfolding log_layout.simps list_ex_iff .
  then obtain e where m: "e \<in> set [c..<Suc (max c (end_offset g f))]"
    and e': "corrupt_run g f c e" "eof_at g f (e * unat (PAD g))"
    by blast
  from m have "c \<le> e" "e \<le> max c (end_offset g f)" by (simp_all del: upt_Suc)
  note e = this e'
  have mx: "max c (end_offset g f) * unat (PAD g) < length f + unat (PAD g)"
    using assms(7) end_offset_props(2) [OF assms(4), of f] by (simp add: max_def)
  have "e * unat (PAD g) \<le> max c (end_offset g f) * unat (PAD g)"
    using e(2) by (rule mult_le_mono1)
  from this mx have ep: "e * unat (PAD g) < length f + unat (PAD g)" by (rule le_less_trans)
  then have ex: "e * unat (PAD g) < 2 ^ 32" "e * unat (PAD g) < 2 ^ 32 + unat (PAD g)"
    using assms(5) by simp_all
  let ?probes = "map (\<lambda>j. Probe (word_of_nat j) (Returns (None, 0, Some EBADSLT))) [c..<e]"
  let ?last = "Probe (word_of_nat e) (Returns (None, 0, Some EOF))"
  have "scan_loop g (file_ReadAt f) bs cb (word_of_nat c) st tr =
      scan_loop g (file_ReadAt f) bs cb (word_of_nat e) st (tr @ ?probes)"
    by (rule scan_corrupt_run [OF assms(1-4) e(1,3) ex(2)])
  also have "\<dots> = Some (Returns None, st, (tr @ ?probes) @ [?last])"
    by (rule scan_loop_eof [OF eof_read [OF assms(1-4) ex(1) e(4)]])
  finally have "scan_loop g (file_ReadAt f) bs cb (word_of_nat c) st tr =
      Some (Returns None, st, tr @ (?probes @ [?last]))" by simp
  moreover have "invocations (?probes @ [?last]) = []"
    by (simp add: invocations_append invocations_probes)
  ultimately show ?thesis by (intro exI [of _ "?probes @ [?last]"] exI [of _ "word_of_nat e"]) simp
qed

lemma scan_layout:
  assumes "16 \<le> bs" "bs \<le> maxAlloc g" "2 ^ 32 \<le> maxAlloc g"
    and "PAD g \<noteq> 0" and "length f + unat (PAD g) < 2 ^ 32"
    and cb: "\<forall>d k n s. fst (cb d k n s) = None"
  shows "log_layout g f c rs \<Longrightarrow> c * unat (PAD g) < length f + unat (PAD g) \<Longrightarrow>
    \<exists>st' evs e. scan_loop g (file_ReadAt f) bs cb (word_of_nat c) st tr =
        Some (Returns None, st', tr @ evs) \<and>
      invocations evs =
        map (\<lambda>(k, p). (Some p, word_of_nat k, word_of_nat (k + units g (length p)))) rs \<and>
      evs \<noteq> [] \<and> last evs = Probe e (Returns (None, 0, Some EOF))"
proof (induction rs arbitrary: c st tr)
  case Nil
  from scan_end [OF assms(1-5) Nil, of cb st tr] show ?case by auto
next
  case (Cons kp rs)
  obtain k p where kp: "kp = (k, p)" by (cases kp)
  let ?P = "unat (PAD g)"
  let ?n = "k + units g (length p)"
  from Cons.prems(1) kp have l: "c \<le> k" "corrupt_run g f c k" "record_at g f (k * ?P)"
    "payload_at f (k * ?P) = p" "log_layout g f ?n rs"
    by simp_all
  have av: "k * ?P + 16 + unat (metadata_length f (k * ?P)) \<le> length f"
    using l(3) by (simp add: record_at_def)
  have len: "length p = unat (metadata_length f (k * ?P))"
    using av l(4) by (auto simp: payload_at_def)
  have kx: "k * ?P < 2 ^ 32 + ?P" using av assms(5) by simp
  have nx: "?n * ?P < length f + ?P"
    using units_bound(2) [OF assms(4), of "length p"] av len by (simp add: add_mult_distrib)
  let ?probes = "map (\<lambda>j. Probe (word_of_nat j) (Returns (None, 0, Some EBADSLT))) [c..<k]"
  let ?rec = "[Probe (word_of_nat k) (Returns (Some p, word_of_nat ?n, None)),
               Invoke (Some p) (word_of_nat k) (word_of_nat ?n)]"
  obtain st1 where c1: "cb (Some p) (word_of_nat k) (word_of_nat ?n) st = (None, st1)"
    using cb [rule_format, of "Some p" "word_of_nat k" "word_of_nat ?n" st]
    by (cases "cb (Some p) (word_of_nat k) (word_of_nat ?n) st") auto
  from Cons.IH [OF l(5) nx, of st1 "(tr @ ?probes) @ ?rec"] obtain st' evs e where
    ih: "scan_loop g (file_ReadAt f) bs cb (word_of_nat ?n) st1 ((tr @ ?probes) @ ?rec) =
           Some (Returns None, st', ((tr @ ?probes) @ ?rec) @ evs)"
      "invocations evs =
        map (\<lambda>(k, p). (Some p, word_of_nat k, word_of_nat (k + units g (length p)))) rs"
      "evs \<noteq> []" "last evs = Probe e (Returns (None, 0, Some EOF))"
    by blast
  have "scan_loop g (file_ReadAt f) bs cb (word_of_nat c) st tr =
      scan_loop g (file_ReadAt f) bs cb (word_of_nat k) st (tr @ ?probes)"
    by (rule scan_corrupt_run [OF assms(1-4) l(1,2) kx])
  also have "\<dots> = scan_loop g (file_ReadAt f) bs cb (word_of_nat ?n) st1 ((tr @ ?probes) @ ?rec)"
    by (rule scan_loop_record [where cb = cb and st = st, OF record_read [OF assms(1-5) l(3,4)] c1])
  also note ih(1)
  finally have "scan_loop g (file_ReadAt f) bs cb (word_of_nat c) st tr =
      Some (Returns None, st', tr @ (?probes @ ?rec @ evs))" by simp
  moreover have "invocations (?probes @ ?rec @ evs) =
      map (\<lambda>(k, p). (Some p, word_of_nat k, word_of_nat (k + units g (length p)))) (kp # rs)"
    using ih(2) kp by (simp add: invocations_append invocations_probes)
  moreover have "?probes @ ?rec @ evs \<noteq> []" "last (?probes @ ?rec @ evs) = Probe e (Returns (None, 0, Some EOF))"
    using ih(3,4) by simp_all
  ultimately show ?case by blast
qed

lemma layout_ascending:
  assumes "PAD g \<noteq> 0"
  shows "log_layout g f c rs \<Longrightarrow> sorted_wrt (<) (map fst rs) \<and> (\<forall>k \<in> set (map fst rs). c \<le> k)"
proof (induction rs arbitrary: c)
  case Nil
  then show ?case by simp
next
  case (Cons kp rs)
  obtain k p where kp: "kp = (k, p)" by (cases kp)
  with Cons.prems have l: "c \<le> k" "log_layout g f (k + units g (length p)) rs" by simp_all
  from Cons.IH [OF l(2)] units_bound(1) [OF assms, of "length p"] l(1) kp
  show ?case by fastforce
qed

lemma classify:
  "eof_at g f pos \<or> corrupt_at g f pos \<or> record_at g f pos"
  by (auto simp: eof_at_def corrupt_at_def record_at_def)

lemma layout_exists:
  assumes "PAD g \<noteq> 0"
  shows "\<exists>rs. log_layout g f c rs"
proof (induction "end_offset g f - c" arbitrary: c rule: less_induct)
  case less
  let ?P = "unat (PAD g)"
  let ?E = "max c (end_offset g f)"
  let ?Q = "\<lambda>e. c \<le> e \<and> \<not> corrupt_at g f (e * ?P)"
  have "eof_at g f (?E * ?P)" by (rule eof_at_end [OF assms]) simp
  then have "\<not> corrupt_at g f (?E * ?P)"
    using assms by (auto simp: eof_at_def corrupt_at_def)
  then have qE: "?Q ?E" by simp
  define e where "e = (LEAST e. ?Q e)"
  have qe: "?Q e" unfolding e_def using qE by (rule LeastI)
  have le: "e \<le> ?E" unfolding e_def using qE by (rule Least_le)
  have run: "corrupt_run g f c e"
  proof -
    have "corrupt_at g f (j * ?P)" if "c \<le> j" "j < e" for j
    proof (rule ccontr)
      assume "\<not> corrupt_at g f (j * ?P)"
      with that(1) have "?Q j" by simp
      then have "e \<le> j" unfolding e_def by (rule Least_le)
      with that(2) show False by simp
    qed
    then show ?thesis by (simp add: corrupt_run_def list_all_iff)
  qed
  show ?case
  proof (cases "eof_at g f (e * ?P)")
    case True
    have "e \<in> set [c..<Suc ?E]" using qe le by (simp del: upt_Suc)
    with run True have "\<exists>e \<in> set [c..<Suc ?E].
        corrupt_run g f c e \<and> eof_at g f (e * ?P)"
      by blast
    then have "log_layout g f c []" unfolding log_layout.simps list_ex_iff .
    then show ?thesis ..
  next
    case False
    with classify [of g f "e * ?P"] qe have rec: "record_at g f (e * ?P)" by blast
    have "e < end_offset g f"
    proof (rule ccontr)
      assume "\<not> e < end_offset g f"
      then have "end_offset g f \<le> e" by simp
      from eof_at_end [OF assms this] False show False by simp
    qed
    moreover have "0 < units g (length (payload_at f (e * ?P)))"
      by (rule units_bound(1) [OF assms])
    moreover have "c \<le> e" using qe by simp
    ultimately have
      "end_offset g f - (e + units g (length (payload_at f (e * ?P)))) < end_offset g f - c"
      by arith
    from less [OF this] obtain rs where
      "log_layout g f (e + units g (length (payload_at f (e * ?P)))) rs" ..
    with qe run rec have "log_layout g f c ((e, payload_at f (e * ?P)) # rs)" by simp
    then show ?thesis ..
  qed
qed

lemma all_corrupt_scan_returns:
  assumes "16 \<le> bs" "bs \<le> maxAlloc g" "2 ^ 32 \<le> maxAlloc g"
    and "PAD g \<noteq> 0" and "end_offset g f * unat (PAD g) < 2 ^ 32"
    and "corrupt_run g f 0 (end_offset g f)"
  shows "ScanFromReader g (file_ReadAt f) 0 bs cb st =
     Some (Returns None, st,
       map (\<lambda>j. Probe (word_of_nat j) (Returns (None, 0, Some EBADSLT))) [0..<end_offset g f] @
       [Probe (word_of_nat (end_offset g f)) (Returns (None, 0, Some EOF))])"
proof -
  let ?e = "end_offset g f"
  have "scan_loop g (file_ReadAt f) bs cb (word_of_nat 0) st [] =
      scan_loop g (file_ReadAt f) bs cb (word_of_nat ?e) st
        ([] @ map (\<lambda>j. Probe (word_of_nat j) (Returns (None, 0, Some EBADSLT))) [0..<?e])"
    using assms(5) by (intro scan_corrupt_run [OF assms(1-4) _ assms(6)]) simp_all
  also have "\<dots> = Some (Returns None, st,
      ([] @ map (\<lambda>j. Probe (word_of_nat j) (Returns (None, 0, Some EBADSLT))) [0..<?e]) @
      [Probe (word_of_nat ?e) (Returns (None, 0, Some EOF))])"
    by (rule scan_loop_eof
        [OF eof_read [OF assms(1-5) eof_at_end [OF assms(4) order_refl]]])
  finally show ?thesis by (simp add: ScanFromReader_def)
qed

lemma pos_bound: "unat ((off :: 32 word) * 64) + 64 \<le> 4294967296"
proof -
  have "unat (off * 64) = (unat off * 64) mod 2 ^ 32" by (simp add: unat_word_ariths)
  also have "\<dots> = 64 * (unat off mod 2 ^ 26)" by (simp add: mult_mod_right mult.commute)
  finally have "unat (off * 64) = 64 * (unat off mod 2 ^ 26)" .
  moreover have "unat off mod 2 ^ 26 < 2 ^ 26" by simp
  ultimately show ?thesis by simp
qed

lemma zero_corrupt:
  "fst (ReadFromReader sample_env (file_ReadAt zero_file) off 4096) = Returns (None, 0, Some EBADSLT)"
proof -
  define pos where "pos = unat (off * PAD sample_env)"
  have b: "pos + 64 \<le> 4294967296" using pos_bound [of off] by (simp add: pos_def sample_env_def)
  have l: "\<not> length zero_file < pos + 16" using b by (simp add: zero_file_def)
  have m: "\<not> magic_ok sample_env zero_file pos"
    using b by (simp add: magic_ok_def header_at_def zero_file_def sample_env_def slice_def min_def replicate_4)
  have e: "(16::int) \<le> 4096" "4096 \<le> maxAlloc sample_env" "2 ^ 32 \<le> maxAlloc sample_env"
    "PAD sample_env \<noteq> 0"
    by (simp_all add: sample_env_def)
  from file_read_semantics [OF e pos_def, of zero_file] m l show ?thesis by simp
qed

lemma zero_diverges: "scan_loop sample_env (file_ReadAt zero_file) 4096 cb off st tr = None"
proof (cases "scan_loop sample_env (file_ReadAt zero_file) 4096 cb off st tr")
  case (Some r)
  from never_returns_if_all_corrupt [OF this] zero_corrupt show ?thesis by blast
qed simp

text \<open>
  C8.  The claim: a scan over an all-corrupt file of \<open>N\<close> padding units returns after at
  most \<open>N\<close> steps.  It does when the end of the file is addressed exactly
  (\<open>all_corrupt_scan_returns\<close>).  Over 4 GiB of zero bytes, with a padding of 64, every
  probe reads zeros at a position below \<open>2 ^ 32\<close> and is corrupt: offset \<open>2 ^ 26\<close>
  reads position 0 again, and the scan never returns.
\<close>

theorem scan_of_4GiB_of_zeros_never_returns:
  "ScanFromReader sample_env (file_ReadAt zero_file) 0 4096 cb st = None"
  by (simp add: ScanFromReader_def zero_diverges)

text \<open>
  C4, as the claim states it.  The file holds one valid record, at offset 1, after 64 bytes
  that are no record.  The scan reads the header at offset 0, which passes its checks and
  announces more payload than the file holds; the second read reports \<^verbatim>\<open>io.EOF\<close>, and
  the scan returns success without having called the callback.
\<close>

theorem torn_write_hides_later_record:
  "record_at sample_env torn_file 64 \<and> payload_at torn_file 64 = hello \<and>
   \<not> record_at sample_env torn_file 0 \<and>
   ScanFromReader sample_env (file_ReadAt torn_file) 0 16 count_cb 0 =
     Some (Returns None, 0, [Probe 0 (Returns (None, 0, Some EOF))])"
  by code_simp

text \<open>
  C4, amended.  Take a file that ends more than one padding unit below 4 GiB, and the
  \<open>K\<close> valid records on its log: each reached from offset 0, or from the next offset of
  the record before it, over a run of corrupt offsets, and the last followed by a run of
  corrupt offsets up to an offset where the data ends.  (Every file has such a log:
  \<open>layout_exists\<close>.)  A scan from offset 0 with a callback that never fails and a block
  size from 16 up to what can be allocated returns success; the callback was called once for
  each of the records, in file order, with the payload, the offset and the next offset (the
  offset plus the record's padding units); the offsets ascend strictly; and every call of
  the callback is followed by the probe at the next offset.  A valid record that lies
  behind a header whose payload the file does not hold is not on the log.
\<close>

theorem scan_visits_each_record_once:
  assumes "16 \<le> bsize" and "bsize \<le> maxAlloc g" and "2 ^ 32 \<le> maxAlloc g"
    and "PAD g \<noteq> 0" and "length f + unat (PAD g) < 2 ^ 32"
    and "log_layout g f 0 rs" and "\<forall>d k n s. fst (cb d k n s) = None"
  shows "\<exists>st' tr. ScanFromReader g (file_ReadAt f) 0 bsize cb st = Some (Returns None, st', tr) \<and>
     invocations tr =
       map (\<lambda>(k, p). (Some p, word_of_nat k, word_of_nat (k + units g (length p)))) rs \<and>
     sorted_wrt (<) (map fst rs) \<and>
     (\<forall>i<length tr. \<forall>d k n. tr ! i = Invoke d k n \<longrightarrow>
        Suc i < length tr \<and> (\<exists>r. tr ! Suc i = Probe n r))"
proof -
  have "0 * unat (PAD g) < length f + unat (PAD g)"
    using assms(4) by (simp add: unat_gt_0)
  from scan_layout [OF assms(1-5,7,6) this, where st = st and tr = "[]"] obtain st' evs e where
    r: "scan_loop g (file_ReadAt f) bsize cb 0 st [] = Some (Returns None, st', evs)"
    and i: "invocations evs =
       map (\<lambda>(k, p). (Some p, word_of_nat k, word_of_nat (k + units g (length p)))) rs"
    and l: "evs \<noteq> []" "last evs = Probe e (Returns (None, 0, Some EOF))"
    by auto
  from scan_trace_run [OF r] have run: "run_from 0 evs" by simp
  have "Suc i < length evs \<and> (\<exists>r. evs ! Suc i = Probe n r)"
    if "i < length evs" "evs ! i = Invoke d k n" for i d k n
  proof -
    have "Suc i \<noteq> length evs"
    proof
      assume "Suc i = length evs"
      then have "i = length evs - 1" by simp
      then have "evs ! i = last evs" using l(1) by (simp add: last_conv_nth)
      with that(2) l(2) show False by simp
    qed
    with that(1) have "Suc i < length evs" by simp
    with run_from_invoke [OF run this that(2)] show ?thesis by simp
  qed
  with r i layout_ascending [OF assms(4,6)] show ?thesis
    by (auto simp: ScanFromReader_def)
qed

theorem scan_visits_each_record_once_witness:
  "\<exists>st' tr. ScanFromReader sample_env (file_ReadAt crashed_file) 0 16 count_cb 0 =
       Some (Returns None, st', tr) \<and>
     invocations tr = [(Some hello, 0, 1), (Some hello, 2, 3)]"
proof -
  have a: "(16::int) \<le> 16" "16 \<le> maxAlloc sample_env" "2 ^ 32 \<le> maxAlloc sample_env"
    "PAD sample_env \<noteq> 0" "length crashed_file + unat (PAD sample_env) < 2 ^ 32"
    by (simp_all add: sample_env_def crashed_file_def two_record_file_def torn_header_def
        hello_file_def hello_record_def hello_def)
  have b: "log_layout sample_env crashed_file 0 [(0, hello), (2, hello)]"
    by code_simp
  have c: "\<forall>d k n s. fst (count_cb d k n s) = None"
    by (simp add: count_cb_def)
  have u: "units sample_env (length hello) = 1"
    by code_simp
  from scan_visits_each_record_once [OF a b c, where st = 0] u show ?thesis
    by auto
qed

section \<open>Properties of NewReader\<close>

text \<open>
  C9.  A block size of 0 behaves exactly as a block size of 16, and a positive block size
  below 16 fails with \<^verbatim>\<open>EINVAL\<close>, the file system untouched: no file was opened.
\<close>

theorem NewReader_block_size:
  "NewReader fs filename 0 = NewReader fs filename 16 \<and>
   (0 < b \<and> b < 16 \<longrightarrow> NewReader fs filename b = (Inl EINVAL, fs))"
  by (simp add: NewReader_def)

theorem NewReader_block_size_witness:
  "(0::int) < 7 \<and> (7::int) < 16 \<and>
   NewReader \<lparr>contents = (\<lambda>_. Some hello_file), open_calls = []\<rparr> ''log'' 7 =
     (Inl EINVAL, \<lparr>contents = (\<lambda>_. Some hello_file), open_calls = []\<rparr>)"
  using NewReader_block_size [of "\<lparr>contents = (\<lambda>_. Some hello_file), open_calls = []\<rparr>" "''log''" 7]
  by simp

text \<open>
  A handle that was opened has a block size of at least 16 and reads the file it was opened
  on; so a read through it returns a valid record, and the offset after the record's
  padding, whenever its block can be allocated and the file ends more than one padding unit
  below 4 GiB.
\<close>

lemma NewReader_handle:
  "NewReader fs filename b = (Inr ar, fs') \<Longrightarrow>
   16 \<le> blockSize ar \<and> contents fs filename = Some (file_r ar) \<and>
   open_calls fs' = open_calls fs @ [filename]"
  by (auto simp: NewReader_def OpenFile_def Let_def split: if_splits option.splits)

lemma Read_valid_record:
  assumes "NewReader fs filename b = (Inr ar, fs')"
    and "blockSize ar \<le> maxAlloc g" and "2 ^ 32 \<le> maxAlloc g" and "PAD g \<noteq> 0"
    and "length (file_r ar) + unat (PAD g) < 2 ^ 32"
    and "record_at g (file_r ar) (k * unat (PAD g))"
    and "payload_at (file_r ar) (k * unat (PAD g)) = p"
  shows "fst (Read g ar (word_of_nat k)) =
     Returns (Some p, word_of_nat (k + units g (length p)), None)"
proof -
  from NewReader_handle [OF assms(1)] have "16 \<le> blockSize ar" by simp
  from record_read [OF this assms(2-7)] show ?thesis by (simp add: Read_def)
qed

end
